theory Spec2Isabelle
  imports Main "HOL-Library.Signed_Division"
begin

section \<open>gen\_pair\_pseudo.c: probable primes and exponents for an RSA-style key\<close>

text \<open>
  The program is one C file on top of the GMP library.  Its big integers (\<^verbatim>\<open>mpz_t\<close>)
  are handles to mutable numbers, every function receives them by reference, and the
  random generator \<^verbatim>\<open>rndState\<close> is a global.  The embedding keeps that shape: a
  \<^emph>\<open>world\<close> holds the memory of big integers (a map from handles to values), the
  generator state and what was written to standard error; each C function takes the
  handles it is called with and returns the updated world.

  C \<^verbatim>\<open>int\<close> values are unbounded integers here.  The expressions the program
  computes on them (\<^verbatim>\<open>nNumBits - 1\<close>, \<^verbatim>\<open>2 * nNumBits - 1\<close>, \<^verbatim>\<open>5 * nNumBits\<close>,
  \<^verbatim>\<open>i++\<close>) stay inside the range of a 32-bit \<^verbatim>\<open>int\<close> for every bit length up to
  429496729; shift counts are read with \<open>nat\<close>, which is what C does for a bit length
  of at least 1.
\<close>

subsection \<open>The GMP services\<close>

text \<open>
  GMP is not part of the repository.  What the program needs of it and cannot be
  computed from the manual's contract is a parameter: how a seed becomes a generator
  state, what the generator yields next, and the answer of the primality test
  (0 composite, 1 probably prime, 2 prime).
\<close>

record 's gmp =
  randseed_ui :: "int \<Rightarrow> 's"
  urandomb_raw :: "'s \<Rightarrow> nat \<Rightarrow> nat \<times> 's"
  probab_prime_p :: "int \<Rightarrow> int \<Rightarrow> int"

text \<open>\<^verbatim>\<open>mpz_urandomb (rop, state, k)\<close>: a number in the range 0 to \<open>2^k - 1\<close>, and the
  generator has moved on.\<close>

definition mpz_urandomb :: "'s gmp \<Rightarrow> 's \<Rightarrow> nat \<Rightarrow> int \<times> 's" where
  "mpz_urandomb lib st k =
     (case urandomb_raw lib st k of (r, st') \<Rightarrow> (int (r mod 2 ^ k), st'))"

text \<open>\<^verbatim>\<open>mpz_gcdext\<close>: the greatest common divisor \<open>g\<close> and cofactors with
  \<open>a * s + b * t = g\<close>, by Euclid's algorithm.\<close>

function mpz_gcdext :: "int \<Rightarrow> int \<Rightarrow> int \<times> int \<times> int" where
  "mpz_gcdext a b =
     (if b = 0 then (\<bar>a\<bar>, sgn a, 0)
      else (case mpz_gcdext b (a mod b) of (g, s, t) \<Rightarrow> (g, t, s - t * (a div b))))"
  by pat_completeness auto
termination
  by (relation "measure (\<lambda>(a, b). nat \<bar>b\<bar>)") (auto simp: abs_mod_less)

declare mpz_gcdext.simps [simp del]

text \<open>\<^verbatim>\<open>mpz_invert (rop, op1, op2)\<close>: returns 0 when \<open>op1\<close> has no inverse modulo
  \<open>op2\<close>; otherwise non-zero with \<open>0 \<le> rop < \<bar>op2\<bar>\<close> (\<open>rop = 0\<close> only in the zero
  ring, \<open>\<bar>op2\<bar> = 1\<close>).  \<open>None\<close> is the return value 0.  The manual leaves a modulus 0
  undefined; the library's code, followed here, then inverts 1 and -1 alone.\<close>

definition mpz_invert :: "int \<Rightarrow> int \<Rightarrow> int option" where
  "mpz_invert op1 op2 =
     (case mpz_gcdext op1 op2 of (g, s, t) \<Rightarrow>
        if g = 1 then Some (s mod \<bar>op2\<bar>) else None)"

subsection \<open>The world: big integers by handle, the generator, standard error\<close>

type_synonym mpz_t = nat

record 's world =
  mem :: "mpz_t \<Rightarrow> int"
  rndState :: 's
  stderr :: "string list"

datatype failure = RetryExhausted | NotInvertible

text \<open>\<^verbatim>\<open>mpz_set (rop, v)\<close> on the memory of a world.\<close>

definition mpz_set :: "mpz_t \<Rightarrow> int \<Rightarrow> 's world \<Rightarrow> 's world" where
  "mpz_set rop v w = w\<lparr>mem := (mem w)(rop := v)\<rparr>"

subsection \<open>fnCreate\_pseudo\_prime\<close>

text \<open>
  One pass through the body of the \<^verbatim>\<open>while (1)\<close> loop, up to the point where the
  loop control takes over: \<open>Accept n\<close> is the \<^verbatim>\<open>break\<close>, \<open>Retry\<close> a \<^verbatim>\<open>continue\<close> (the
  counter is not touched), \<open>Count\<close> the fall through to \<^verbatim>\<open>i++\<close>.
\<close>

datatype outcome = Accept int | Retry | Count

definition fnCreate_attempt ::
  "'s gmp \<Rightarrow> int \<Rightarrow> int \<Rightarrow> int \<Rightarrow> int \<Rightarrow> int \<Rightarrow> 's \<Rightarrow> outcome \<times> 's" where
  "fnCreate_attempt lib mpzE mpzCompare nNumBits nNumTests flTestDiff st =
     (let mpzOneShifted = 2 ^ nat (nNumBits - 1);
          (n0, st') = mpz_urandomb lib st (nat (nNumBits - 1));
          n1 = n0 + mpzOneShifted;
          n = (if \<not> odd n1 then n1 + 1 else n1);
          j = (if nNumBits \<le> 100 then 0 else nNumBits - 100)
      in if flTestDiff = 1 \<and> \<bar>n - mpzCompare\<bar> \<le> 2 ^ nat j then (Retry, st')
         else if n * n < 2 ^ nat (2 * nNumBits - 1) then (Retry, st')
         else if gcd (n - 1) mpzE = 1 \<and> 1 \<le> probab_prime_p lib n nNumTests
           then (Accept n, st')
         else (Count, st'))"

text \<open>The loop with its counter \<open>i\<close>.  It need not end: \<open>None\<close> is a run that never
  leaves the loop.\<close>

partial_function (option) fnCreate_loop ::
  "'s gmp \<Rightarrow> int \<Rightarrow> int \<Rightarrow> int \<Rightarrow> int \<Rightarrow> int \<Rightarrow> int \<Rightarrow> 's \<Rightarrow> (failure + int \<times> 's) option" where
  "fnCreate_loop lib mpzE mpzCompare nNumBits nNumTests flTestDiff i st =
     (case fnCreate_attempt lib mpzE mpzCompare nNumBits nNumTests flTestDiff st of
        (Accept n, st') \<Rightarrow> Some (Inr (n, st'))
      | (Retry, st') \<Rightarrow>
          fnCreate_loop lib mpzE mpzCompare nNumBits nNumTests flTestDiff i st'
      | (Count, st') \<Rightarrow>
          if 5 * nNumBits \<le> i + 1 then Some (Inl RetryExhausted)
          else fnCreate_loop lib mpzE mpzCompare nNumBits nNumTests flTestDiff (i + 1) st')"

definition fnCreate_pseudo_prime ::
  "'s gmp \<Rightarrow> mpz_t \<Rightarrow> mpz_t \<Rightarrow> mpz_t \<Rightarrow> int \<Rightarrow> int \<Rightarrow> int \<Rightarrow> 's world
     \<Rightarrow> (failure + 's world) option" where
  "fnCreate_pseudo_prime lib mpzPrime mpzE mpzCompare nNumBits nNumTests flTestDiff w =
     (case fnCreate_loop lib (mem w mpzE) (mem w mpzCompare) nNumBits nNumTests
             flTestDiff 0 (rndState w) of
        None \<Rightarrow> None
      | Some (Inl err) \<Rightarrow> Some (Inl err)
      | Some (Inr (n, st')) \<Rightarrow> Some (Inr (mpz_set mpzPrime n (w\<lparr>rndState := st'\<rparr>))))"

subsection \<open>fnCompute\_exponent\_d\<close>

definition fnCompute_exponent_d ::
  "mpz_t \<Rightarrow> mpz_t \<Rightarrow> mpz_t \<Rightarrow> mpz_t \<Rightarrow> int \<Rightarrow> 's world \<Rightarrow> failure + 's world" where
  "fnCompute_exponent_d mpzP1 mpzE mpzP2 mpzD nNumBits w =
     (let temp = mem w mpzP1 * mem w mpzP2;
          temp = temp - mem w mpzP1;
          temp = temp - mem w mpzP2;
          temp = temp + 1
      in case mpz_invert (mem w mpzE) temp of
           None \<Rightarrow> Inl NotInvertible
         | Some n \<Rightarrow>
             (let mpzOneShifted = 2 ^ nat nNumBits;
                  w1 = (if n < mpzOneShifted
                        then w\<lparr>stderr := stderr w @ [''   ### WARNING: Exponent too small'']\<rparr>
                        else w)
              in Inr (mpz_set mpzD n w1)))"

subsection \<open>fnGet\_rand\_seed and fnGet\_exponent\_e\<close>


text \<open>The sampling loop of \<^verbatim>\<open>fnGet_exponent_e\<close>; it has no iteration cap.\<close>

partial_function (option) fnGet_exponent_e_loop :: "'s gmp \<Rightarrow> 's \<Rightarrow> (int \<times> 's) option" where
  "fnGet_exponent_e_loop lib st =
     (case mpz_urandomb lib st 256 of (temp, st') \<Rightarrow>
        if even temp then fnGet_exponent_e_loop lib st'
        else if temp < 65536 then fnGet_exponent_e_loop lib st'
        else if 2 ^ 256 < temp then fnGet_exponent_e_loop lib st'
        else Some (temp, st'))"

definition fnGet_exponent_e ::
  "'s gmp \<Rightarrow> char \<Rightarrow> nat \<Rightarrow> mpz_t \<Rightarrow> 's world \<Rightarrow> 's world option" where
  "fnGet_exponent_e lib chIn nValE mpzE w =
     (if chIn = CHR ''Y'' \<or> chIn = CHR ''y'' then Some (mpz_set mpzE (int nValE) w)
      else (case fnGet_exponent_e_loop lib (rndState w) of
              None \<Rightarrow> None
            | Some (temp, st') \<Rightarrow> Some (mpz_set mpzE temp (w\<lparr>rndState := st'\<rparr>))))"

subsection \<open>main\<close>





subsection \<open>Reading the generator ahead\<close>

text \<open>The outcomes of the next \<open>k\<close> passes through the loop body of
  \<^verbatim>\<open>fnCreate_pseudo_prime\<close>, whatever the loop control does with them, and the
  generator state after them.\<close>

fun attempt_trace ::
  "'s gmp \<Rightarrow> int \<Rightarrow> int \<Rightarrow> int \<Rightarrow> int \<Rightarrow> int \<Rightarrow> nat \<Rightarrow> 's \<Rightarrow> outcome list" where
  "attempt_trace lib mpzE mpzCompare nNumBits nNumTests flTestDiff 0 st = []"
| "attempt_trace lib mpzE mpzCompare nNumBits nNumTests flTestDiff (Suc k) st =
     (case fnCreate_attempt lib mpzE mpzCompare nNumBits nNumTests flTestDiff st of
        (out, st') \<Rightarrow>
          out # attempt_trace lib mpzE mpzCompare nNumBits nNumTests flTestDiff k st')"

fun is_Accept :: "outcome \<Rightarrow> bool" where
  "is_Accept (Accept n) = True"
| "is_Accept Retry = False"
| "is_Accept Count = False"

text \<open>The generator state after \<open>k\<close> draws of \<open>b\<close> bits, and the \<open>k\<close>-th such draw
  (counted from 0).\<close>

fun after_draws :: "'s gmp \<Rightarrow> nat \<Rightarrow> nat \<Rightarrow> 's \<Rightarrow> 's" where
  "after_draws lib b 0 st = st"
| "after_draws lib b (Suc k) st = after_draws lib b k (snd (mpz_urandomb lib st b))"

definition draw :: "'s gmp \<Rightarrow> nat \<Rightarrow> nat \<Rightarrow> 's \<Rightarrow> int" where
  "draw lib b k st = fst (mpz_urandomb lib (after_draws lib b k st) b)"

text \<open>The test a 256-bit draw has to pass in \<^verbatim>\<open>fnGet_exponent_e\<close>.\<close>

definition exponent_ok :: "int \<Rightarrow> bool" where
  "exponent_ok temp \<longleftrightarrow> \<not> even temp \<and> \<not> temp < 65536 \<and> \<not> 2 ^ 256 < temp"

text \<open>A toy instance of the GMP services, for running the definitions: the generator
  state counts the draws, the draws come from a list (0 once it is used up), and the
  primality test knows the primes below 32.\<close>

definition toy_gmp :: "nat list \<Rightarrow> nat gmp" where
  "toy_gmp xs =
     \<lparr>randseed_ui = (\<lambda>seed. 0),
      urandomb_raw = (\<lambda>st k. (if st < length xs then xs ! st else 0, Suc st)),
      probab_prime_p = (\<lambda>n reps. if n \<in> {2, 3, 5, 7, 11, 13, 17, 19, 23, 29, 31} then 2 else 0)\<rparr>"

definition toy_world :: "(mpz_t \<Rightarrow> int) \<Rightarrow> nat \<Rightarrow> nat world" where
  "toy_world m st = \<lparr>mem = m, rndState = st, stderr = []\<rparr>"

text \<open>Memory for the toy runs: the handles 0, 1, 2 hold \<open>p\<close>, \<open>q\<close> and \<open>e\<close>, as the first
  three variables of \<^verbatim>\<open>main\<close> do; every other handle holds 0.\<close>

definition toy_mem :: "int \<Rightarrow> int \<Rightarrow> int \<Rightarrow> mpz_t \<Rightarrow> int" where
  "toy_mem p q e = (\<lambda>_. 0)(0 := p, 1 := q, 2 := e)"

section \<open>Facts about the GMP services\<close>

lemma mpz_urandomb_range:
  "mpz_urandomb lib st k = (r, st') \<Longrightarrow> 0 \<le> r \<and> r < 2 ^ k"
  by (auto simp: mpz_urandomb_def split: prod.splits)




lemma mem_mpz_set [simp]: "mem (mpz_set rop v w) = (mem w)(rop := v)"
  and rndState_mpz_set [simp]: "rndState (mpz_set rop v w) = rndState w"
  and stderr_mpz_set [simp]: "stderr (mpz_set rop v w) = stderr w"
  by (simp_all add: mpz_set_def)

section \<open>The loop body of fnCreate\_pseudo\_prime\<close>

lemma attempt_Accept_unfold:
  assumes "fnCreate_attempt lib mpzE mpzCompare nNumBits nNumTests flTestDiff st = (Accept n, st')"
  obtains r where "mpz_urandomb lib st (nat (nNumBits - 1)) = (r, st')"
    and "n = (if \<not> odd (r + 2 ^ nat (nNumBits - 1)) then r + 2 ^ nat (nNumBits - 1) + 1
              else r + 2 ^ nat (nNumBits - 1))"
    and "\<not> (flTestDiff = 1 \<and> \<bar>n - mpzCompare\<bar> \<le> 2 ^ nat (if nNumBits \<le> 100 then 0 else nNumBits - 100))"
    and "\<not> n * n < 2 ^ nat (2 * nNumBits - 1)"
    and "gcd (n - 1) mpzE = 1" and "1 \<le> probab_prime_p lib n nNumTests"
proof -
  obtain r s where rs: "mpz_urandomb lib st (nat (nNumBits - 1)) = (r, s)"
    by (cases "mpz_urandomb lib st (nat (nNumBits - 1))")
  define m where "m = (if \<not> odd (r + 2 ^ nat (nNumBits - 1)) then r + 2 ^ nat (nNumBits - 1) + 1
              else r + (2::int) ^ nat (nNumBits - 1))"
  define A where "A \<longleftrightarrow> flTestDiff = 1 \<and>
     \<bar>m - mpzCompare\<bar> \<le> 2 ^ nat (if nNumBits \<le> 100 then 0 else nNumBits - 100)"
  define B where "B \<longleftrightarrow> m * m < 2 ^ nat (2 * nNumBits - 1)"
  define C where "C \<longleftrightarrow> gcd (m - 1) mpzE = 1 \<and> 1 \<le> probab_prime_p lib m nNumTests"
  have eq: "fnCreate_attempt lib mpzE mpzCompare nNumBits nNumTests flTestDiff st =
     (if A then (Retry, s) else if B then (Retry, s) else if C then (Accept m, s) else (Count, s))"
    unfolding fnCreate_attempt_def Let_def rs m_def A_def B_def C_def prod.case by (rule refl)
  from assms have "s = st' \<and> n = m \<and> \<not> A \<and> \<not> B \<and> C"
    unfolding eq by (simp split: if_splits)
  then have "mpz_urandomb lib st (nat (nNumBits - 1)) = (r, st')"
    and "n = (if \<not> odd (r + 2 ^ nat (nNumBits - 1)) then r + 2 ^ nat (nNumBits - 1) + 1
              else r + 2 ^ nat (nNumBits - 1))"
    and "\<not> (flTestDiff = 1 \<and> \<bar>n - mpzCompare\<bar> \<le> 2 ^ nat (if nNumBits \<le> 100 then 0 else nNumBits - 100))"
    and "\<not> n * n < 2 ^ nat (2 * nNumBits - 1)"
    and "gcd (n - 1) mpzE = 1" and "1 \<le> probab_prime_p lib n nNumTests"
    using rs m_def A_def B_def C_def by blast+
  then show thesis by (rule that)
qed

lemma attempt_Accept_filters:
  assumes "fnCreate_attempt lib mpzE mpzCompare nNumBits nNumTests flTestDiff st = (Accept n, st')"
  shows "gcd (n - 1) mpzE = 1" and "1 \<le> probab_prime_p lib n nNumTests"
    and "2 ^ nat (2 * nNumBits - 1) \<le> n * n"
    and "flTestDiff = 1 \<Longrightarrow>
           2 ^ nat (if nNumBits \<le> 100 then 0 else nNumBits - 100) < \<bar>n - mpzCompare\<bar>"
proof -
  show "gcd (n - 1) mpzE = 1" using assms by (rule attempt_Accept_unfold)
  show "1 \<le> probab_prime_p lib n nNumTests" using assms by (rule attempt_Accept_unfold)
  have "\<not> n * n < 2 ^ nat (2 * nNumBits - 1)" using assms by (rule attempt_Accept_unfold)
  then show "2 ^ nat (2 * nNumBits - 1) \<le> n * n" by (simp only: not_less)
  have "\<not> (flTestDiff = 1 \<and>
     \<bar>n - mpzCompare\<bar> \<le> 2 ^ nat (if nNumBits \<le> 100 then 0 else nNumBits - 100))"
    using assms by (rule attempt_Accept_unfold)
  then show "2 ^ nat (if nNumBits \<le> 100 then 0 else nNumBits - 100) < \<bar>n - mpzCompare\<bar>"
    if "flTestDiff = 1" using that by (simp only: not_le simp_thms)
qed

lemma even_gap: "even (r::int) \<Longrightarrow> even p \<Longrightarrow> r < p \<Longrightarrow> r + p + 1 < p + p"
  by presburger

lemma attempt_Accept_range:
  assumes "fnCreate_attempt lib mpzE mpzCompare nNumBits nNumTests flTestDiff st = (Accept n, st')"
  shows "2 ^ nat (nNumBits - 1) \<le> n" and "odd n"
    and "2 \<le> nNumBits \<Longrightarrow> n < 2 ^ nat nNumBits"
proof -
  from assms obtain r where rs: "mpz_urandomb lib st (nat (nNumBits - 1)) = (r, st')"
    and n: "n = (if \<not> odd (r + 2 ^ nat (nNumBits - 1)) then r + 2 ^ nat (nNumBits - 1) + 1
              else r + 2 ^ nat (nNumBits - 1))"
    by (rule attempt_Accept_unfold)
  from mpz_urandomb_range[OF rs] have r: "0 \<le> r" "r < 2 ^ nat (nNumBits - 1)" by simp_all
  show "2 ^ nat (nNumBits - 1) \<le> n" using r n by (simp split: if_splits)
  show "odd n" using n by (simp split: if_splits)
  show "n < 2 ^ nat nNumBits" if b: "2 \<le> nNumBits"
  proof -
    from b have nb: "nat nNumBits = Suc (nat (nNumBits - 1))" by simp
    from b have "nat (nNumBits - 1) = Suc (nat (nNumBits - 2))" by simp
    then have ev: "even ((2::int) ^ nat (nNumBits - 1))" by simp
    have pw: "(2::int) ^ nat nNumBits = 2 ^ nat (nNumBits - 1) + 2 ^ nat (nNumBits - 1)"
      unfolding nb by simp
    show ?thesis
    proof (cases "odd (r + 2 ^ nat (nNumBits - 1))")
      case True
      then show ?thesis using n r pw by simp
    next
      case False
      then have "even r" using ev by simp
      then have "r + 2 ^ nat (nNumBits - 1) + 1 < 2 ^ nat (nNumBits - 1) + 2 ^ nat (nNumBits - 1)"
        using ev r(2) by (rule even_gap)
      then show ?thesis using n pw False by simp
    qed
  qed
qed

lemma loop_Accept_aux:
  assumes "fnCreate_loop lib mpzE mpzCompare nNumBits nNumTests flTestDiff i st = Some y"
  shows "\<forall>n st'. y = Inr (n, st') \<longrightarrow>
         (\<exists>st0. fnCreate_attempt lib mpzE mpzCompare nNumBits nNumTests flTestDiff st0 = (Accept n, st'))"
proof (rule fnCreate_loop.raw_induct[where P = "\<lambda>lib mpzE mpzCompare nNumBits nNumTests flTestDiff i st y.
    \<forall>n st'. y = Inr (n, st') \<longrightarrow>
         (\<exists>st0. fnCreate_attempt lib mpzE mpzCompare nNumBits nNumTests flTestDiff st0 = (Accept n, st'))", OF _ assms])
  fix loop :: "'a gmp \<Rightarrow> int \<Rightarrow> int \<Rightarrow> int \<Rightarrow> int \<Rightarrow> int \<Rightarrow> int \<Rightarrow> 'a \<Rightarrow> (failure + int \<times> 'a) option"
    and lib mpzE mpzCompare nNumBits nNumTests flTestDiff i st y
  assume IH: "\<And>lib mpzE mpzCompare nNumBits nNumTests flTestDiff i st y.
      loop lib mpzE mpzCompare nNumBits nNumTests flTestDiff i st = Some y \<Longrightarrow>
      \<forall>n st'. y = Inr (n, st') \<longrightarrow>
         (\<exists>st0. fnCreate_attempt lib mpzE mpzCompare nNumBits nNumTests flTestDiff st0 = (Accept n, st'))"
    and step: "(case fnCreate_attempt lib mpzE mpzCompare nNumBits nNumTests flTestDiff st of
        (Accept n, st') \<Rightarrow> Some (Inr (n, st'))
      | (Retry, st') \<Rightarrow> loop lib mpzE mpzCompare nNumBits nNumTests flTestDiff i st'
      | (Count, st') \<Rightarrow>
          if 5 * nNumBits \<le> i + 1 then Some (Inl RetryExhausted)
          else loop lib mpzE mpzCompare nNumBits nNumTests flTestDiff (i + 1) st') = Some y"
  show "\<forall>n st'. y = Inr (n, st') \<longrightarrow>
         (\<exists>st0. fnCreate_attempt lib mpzE mpzCompare nNumBits nNumTests flTestDiff st0 = (Accept n, st'))"
    using step IH by (auto split: prod.splits outcome.splits if_splits)
qed

lemma loop_Accept:
  "fnCreate_loop lib mpzE mpzCompare nNumBits nNumTests flTestDiff i st = Some (Inr (n, st'))
   \<Longrightarrow> \<exists>st0. fnCreate_attempt lib mpzE mpzCompare nNumBits nNumTests flTestDiff st0 = (Accept n, st')"
  by (drule loop_Accept_aux) simp


lemma fnCreate_pseudo_prime_Inr:
  assumes "fnCreate_pseudo_prime lib mpzPrime mpzE mpzCompare nNumBits nNumTests flTestDiff w = Some (Inr w')"
  obtains n st st' where
    "fnCreate_attempt lib (mem w mpzE) (mem w mpzCompare) nNumBits nNumTests flTestDiff st = (Accept n, st')"
    and "w' = mpz_set mpzPrime n (w\<lparr>rndState := st'\<rparr>)"
proof -
  from assms obtain n st' where
    l: "fnCreate_loop lib (mem w mpzE) (mem w mpzCompare) nNumBits nNumTests flTestDiff 0 (rndState w)
          = Some (Inr (n, st'))"
    and w': "w' = mpz_set mpzPrime n (w\<lparr>rndState := st'\<rparr>)"
    unfolding fnCreate_pseudo_prime_def by (auto split: option.splits sum.splits)
  from loop_Accept[OF l] w' that show thesis by blast
qed

lemma square_bound_product:
  fixes p q c :: int
  assumes p: "0 < p" and q: "0 < q" and pp: "c \<le> p * p" and qq: "c \<le> q * q" and c: "0 \<le> c"
  shows "c \<le> p * q"
proof (rule ccontr)
  assume "\<not> c \<le> p * q"
  then have lt: "p * q < c" by simp
  have "0 < p * q" using p q by simp
  have "(p * q) * (p * q) < c * c"
    using lt \<open>0 < p * q\<close> by (intro mult_strict_mono) simp_all
  moreover have "c * c \<le> (p * p) * (q * q)"
    using pp qq c by (intro mult_mono) simp_all
  ultimately show False by (simp add: mult_ac)
qed

section \<open>fnCompute\_exponent\_d unfolded\<close>

lemma phi_expand: "p * q - p - q + 1 = (p - 1) * (q - 1)" for p q :: int
  by (simp add: algebra_simps)

lemma fnCompute_exponent_d_eq:
  "fnCompute_exponent_d mpzP1 mpzE mpzP2 mpzD nNumBits w =
     (case mpz_invert (mem w mpzE) ((mem w mpzP1 - 1) * (mem w mpzP2 - 1)) of
        None \<Rightarrow> Inl NotInvertible
      | Some n \<Rightarrow>
          Inr (mpz_set mpzD n
            (if n < 2 ^ nat nNumBits
             then w\<lparr>stderr := stderr w @ [''   ### WARNING: Exponent too small'']\<rparr>
             else w)))"
  unfolding fnCompute_exponent_d_def Let_def phi_expand by (rule refl)

section \<open>The exponent loop, draw by draw\<close>

lemma draw_0: "draw lib b 0 st = fst (mpz_urandomb lib st b)"
  by (simp add: draw_def)

lemma draw_Suc: "draw lib b (Suc k) st = draw lib b k (snd (mpz_urandomb lib st b))"
  by (simp add: draw_def)

lemma draw_range: "0 \<le> draw lib b k st \<and> draw lib b k st < 2 ^ b"
  unfolding draw_def by (rule mpz_urandomb_range) (rule prod.collapse[symmetric])

lemma fnGet_exponent_e_loop_step:
  "fnGet_exponent_e_loop lib st =
     (if exponent_ok (draw lib 256 0 st)
      then Some (draw lib 256 0 st, after_draws lib 256 (Suc 0) st)
      else fnGet_exponent_e_loop lib (after_draws lib 256 (Suc 0) st))"
  by (subst fnGet_exponent_e_loop.simps)
    (simp add: exponent_ok_def draw_0 split: prod.splits)

lemma fnGet_exponent_e_loop_first:
  "(\<forall>j<k. \<not> exponent_ok (draw lib 256 j st)) \<Longrightarrow> exponent_ok (draw lib 256 k st)
   \<Longrightarrow> fnGet_exponent_e_loop lib st = Some (draw lib 256 k st, after_draws lib 256 (Suc k) st)"
proof (induction k arbitrary: st)
  case 0
  then show ?case by (subst fnGet_exponent_e_loop_step) simp
next
  case (Suc k)
  let ?st = "snd (mpz_urandomb lib st 256)"
  from Suc.prems(1) have no: "\<not> exponent_ok (draw lib 256 0 st)" by blast
  from Suc.prems(1) have "\<forall>j<k. \<not> exponent_ok (draw lib 256 j ?st)"
    by (auto simp flip: draw_Suc)
  moreover from Suc.prems(2) have "exponent_ok (draw lib 256 k ?st)"
    by (simp add: draw_Suc)
  ultimately have "fnGet_exponent_e_loop lib ?st
      = Some (draw lib 256 k ?st, after_draws lib 256 (Suc k) ?st)"
    by (rule Suc.IH)
  then show ?case
    by (subst fnGet_exponent_e_loop_step) (simp add: no draw_Suc)
qed

lemma fnGet_exponent_e_loop_Some:
  assumes "fnGet_exponent_e_loop lib st = Some y"
  shows "\<exists>k. (\<forall>j<k. \<not> exponent_ok (draw lib 256 j st)) \<and> exponent_ok (draw lib 256 k st)
           \<and> y = (draw lib 256 k st, after_draws lib 256 (Suc k) st)"
proof (rule fnGet_exponent_e_loop.raw_induct[where P = "\<lambda>lib st y.
    \<exists>k. (\<forall>j<k. \<not> exponent_ok (draw lib 256 j st)) \<and> exponent_ok (draw lib 256 k st)
           \<and> y = (draw lib 256 k st, after_draws lib 256 (Suc k) st)", OF _ assms])
  fix loop :: "'a gmp \<Rightarrow> 'a \<Rightarrow> (int \<times> 'a) option" and lib st y
  assume IH: "\<And>lib st y. loop lib st = Some y \<Longrightarrow>
      \<exists>k. (\<forall>j<k. \<not> exponent_ok (draw lib 256 j st)) \<and> exponent_ok (draw lib 256 k st)
           \<and> y = (draw lib 256 k st, after_draws lib 256 (Suc k) st)"
    and step: "(case mpz_urandomb lib st 256 of (temp, st') \<Rightarrow>
        if even temp then loop lib st'
        else if temp < 65536 then loop lib st'
        else if 2 ^ 256 < temp then loop lib st'
        else Some (temp, st')) = Some y"
  let ?st = "snd (mpz_urandomb lib st 256)"
  show "\<exists>k. (\<forall>j<k. \<not> exponent_ok (draw lib 256 j st)) \<and> exponent_ok (draw lib 256 k st)
           \<and> y = (draw lib 256 k st, after_draws lib 256 (Suc k) st)"
  proof (cases "exponent_ok (draw lib 256 0 st)")
    case True
    with step have "y = (draw lib 256 0 st, after_draws lib 256 (Suc 0) st)"
      by (simp add: exponent_ok_def draw_0 split: prod.splits)
    with True show ?thesis by (intro exI[of _ 0]) simp
  next
    case False
    with step have "loop lib ?st = Some y"
      by (auto simp: exponent_ok_def draw_0 split: prod.splits if_splits)
    from IH[OF this] obtain k where k: "\<forall>j<k. \<not> exponent_ok (draw lib 256 j ?st)"
      "exponent_ok (draw lib 256 k ?st)"
      "y = (draw lib 256 k ?st, after_draws lib 256 (Suc k) ?st)"
      by blast
    have "\<forall>j<Suc k. \<not> exponent_ok (draw lib 256 j st)"
    proof (intro allI impI)
      fix j assume "j < Suc k"
      then show "\<not> exponent_ok (draw lib 256 j st)"
        using False k(1) by (cases j) (simp_all add: draw_Suc)
    qed
    with k(2,3) show ?thesis
      by (intro exI[of _ "Suc k"]) (simp add: draw_Suc)
  qed
qed

lemma exponent_ok_bounds:
  "exponent_ok temp \<Longrightarrow> 65536 \<le> temp \<and> temp \<le> 2 ^ 256 \<and> odd temp"
  by (simp add: exponent_ok_def)

section \<open>The prime loop, attempt by attempt\<close>

lemma fnCreate_attempt_state:
  "snd (fnCreate_attempt lib mpzE mpzCompare nNumBits nNumTests flTestDiff st)
     = snd (mpz_urandomb lib st (nat (nNumBits - 1)))"
proof -
  obtain r s where rs: "mpz_urandomb lib st (nat (nNumBits - 1)) = (r, s)"
    by (cases "mpz_urandomb lib st (nat (nNumBits - 1))")
  define m where "m = (if \<not> odd (r + 2 ^ nat (nNumBits - 1)) then r + 2 ^ nat (nNumBits - 1) + 1
              else r + (2::int) ^ nat (nNumBits - 1))"
  define A where "A \<longleftrightarrow> flTestDiff = 1 \<and>
     \<bar>m - mpzCompare\<bar> \<le> 2 ^ nat (if nNumBits \<le> 100 then 0 else nNumBits - 100)"
  define B where "B \<longleftrightarrow> m * m < 2 ^ nat (2 * nNumBits - 1)"
  define C where "C \<longleftrightarrow> gcd (m - 1) mpzE = 1 \<and> 1 \<le> probab_prime_p lib m nNumTests"
  have "fnCreate_attempt lib mpzE mpzCompare nNumBits nNumTests flTestDiff st =
     (if A then (Retry, s) else if B then (Retry, s) else if C then (Accept m, s) else (Count, s))"
    unfolding fnCreate_attempt_def Let_def rs m_def A_def B_def C_def prod.case by (rule refl)
  then show ?thesis unfolding rs by simp
qed

lemma after_draws_Suc_end:
  "after_draws lib b (Suc k) st = snd (mpz_urandomb lib (after_draws lib b k st) b)"
  by (induction k arbitrary: st) simp_all


lemma attempt_trace_Suc:
  "attempt_trace lib mpzE mpzCompare nNumBits nNumTests flTestDiff (Suc k) st =
     fst (fnCreate_attempt lib mpzE mpzCompare nNumBits nNumTests flTestDiff st)
       # attempt_trace lib mpzE mpzCompare nNumBits nNumTests flTestDiff k
           (after_draws lib (nat (nNumBits - 1)) (Suc 0) st)"
proof -
  obtain out s where a: "fnCreate_attempt lib mpzE mpzCompare nNumBits nNumTests flTestDiff st = (out, s)"
    by (cases "fnCreate_attempt lib mpzE mpzCompare nNumBits nNumTests flTestDiff st")
  with fnCreate_attempt_state[of lib mpzE mpzCompare nNumBits nNumTests flTestDiff st]
  have s: "snd (mpz_urandomb lib st (nat (nNumBits - 1))) = s" by simp
  show ?thesis by (simp add: a s)
qed

lemma after_draws_shift:
  "after_draws lib b k (after_draws lib b (Suc 0) st) = after_draws lib b (Suc k) st"
  by simp

declare attempt_trace.simps(2) [simp del]
declare after_draws.simps(2) [simp del]



lemma fnCreate_loop_Some:
  assumes "fnCreate_loop lib mpzE mpzCompare nNumBits nNumTests flTestDiff i st = Some y"
  shows "i < 5 * nNumBits \<longrightarrow>
    (\<exists>k. (\<forall>out \<in> set (attempt_trace lib mpzE mpzCompare nNumBits nNumTests flTestDiff k st).
             \<not> is_Accept out)
      \<and> (case y of
           Inl err \<Rightarrow> err = RetryExhausted
             \<and> i + int (count_list (attempt_trace lib mpzE mpzCompare nNumBits nNumTests flTestDiff k st) Count)
                 = 5 * nNumBits
         | Inr (n, st') \<Rightarrow>
             i + int (count_list (attempt_trace lib mpzE mpzCompare nNumBits nNumTests flTestDiff k st) Count)
               < 5 * nNumBits
             \<and> fst (fnCreate_attempt lib mpzE mpzCompare nNumBits nNumTests flTestDiff
                     (after_draws lib (nat (nNumBits - 1)) k st)) = Accept n
             \<and> st' = after_draws lib (nat (nNumBits - 1)) (Suc k) st))"
proof -
  let ?tr = "\<lambda>lib mpzE mpzCompare nNumBits nNumTests flTestDiff k st.
      attempt_trace lib mpzE mpzCompare nNumBits nNumTests flTestDiff k st"
  let ?Q = "\<lambda>lib mpzE mpzCompare nNumBits nNumTests flTestDiff i st y k.
      (\<forall>out \<in> set (?tr lib mpzE mpzCompare nNumBits nNumTests flTestDiff k st). \<not> is_Accept out)
      \<and> (case y of
           Inl err \<Rightarrow> err = RetryExhausted
             \<and> i + int (count_list (?tr lib mpzE mpzCompare nNumBits nNumTests flTestDiff k st) Count)
                 = 5 * nNumBits
         | Inr (n, st') \<Rightarrow>
             i + int (count_list (?tr lib mpzE mpzCompare nNumBits nNumTests flTestDiff k st) Count)
               < 5 * nNumBits
             \<and> fst (fnCreate_attempt lib mpzE mpzCompare nNumBits nNumTests flTestDiff
                     (after_draws lib (nat (nNumBits - 1)) k st)) = Accept n
             \<and> st' = after_draws lib (nat (nNumBits - 1)) (Suc k) st)"
  let ?P = "\<lambda>lib mpzE mpzCompare nNumBits nNumTests flTestDiff i st y.
      i < 5 * nNumBits \<longrightarrow> (\<exists>k. ?Q lib mpzE mpzCompare nNumBits nNumTests flTestDiff i st y k)"
  have "?P lib mpzE mpzCompare nNumBits nNumTests flTestDiff i st y"
  proof (rule fnCreate_loop.raw_induct[where P = ?P, OF _ assms])
    fix loop :: "'a gmp \<Rightarrow> int \<Rightarrow> int \<Rightarrow> int \<Rightarrow> int \<Rightarrow> int \<Rightarrow> int \<Rightarrow> 'a \<Rightarrow> (failure + int \<times> 'a) option"
      and lib mpzE mpzCompare nNumBits nNumTests flTestDiff i st y
    assume IH: "\<And>lib mpzE mpzCompare nNumBits nNumTests flTestDiff i st y.
        loop lib mpzE mpzCompare nNumBits nNumTests flTestDiff i st = Some y \<Longrightarrow>
        ?P lib mpzE mpzCompare nNumBits nNumTests flTestDiff i st y"
      and step: "(case fnCreate_attempt lib mpzE mpzCompare nNumBits nNumTests flTestDiff st of
          (Accept n, st') \<Rightarrow> Some (Inr (n, st'))
        | (Retry, st') \<Rightarrow> loop lib mpzE mpzCompare nNumBits nNumTests flTestDiff i st'
        | (Count, st') \<Rightarrow>
            if 5 * nNumBits \<le> i + 1 then Some (Inl RetryExhausted)
            else loop lib mpzE mpzCompare nNumBits nNumTests flTestDiff (i + 1) st') = Some y"
    let ?st = "after_draws lib (nat (nNumBits - 1)) (Suc 0) st"
    obtain out s where a: "fnCreate_attempt lib mpzE mpzCompare nNumBits nNumTests flTestDiff st = (out, s)"
      by (cases "fnCreate_attempt lib mpzE mpzCompare nNumBits nNumTests flTestDiff st")
    with fnCreate_attempt_state[of lib mpzE mpzCompare nNumBits nNumTests flTestDiff st]
    have s: "s = ?st" by (simp add: after_draws.simps(2))
    from a have out: "fst (fnCreate_attempt lib mpzE mpzCompare nNumBits nNumTests flTestDiff st) = out"
      by simp
    have tr: "\<And>k. ?tr lib mpzE mpzCompare nNumBits nNumTests flTestDiff (Suc k) st
        = out # ?tr lib mpzE mpzCompare nNumBits nNumTests flTestDiff k ?st"
      by (simp add: attempt_trace_Suc out)
    show "?P lib mpzE mpzCompare nNumBits nNumTests flTestDiff i st y"
    proof (intro impI)
      assume i: "i < 5 * nNumBits"
      show "\<exists>k. ?Q lib mpzE mpzCompare nNumBits nNumTests flTestDiff i st y k"
      proof (cases out)
        case (Accept n)
        with step a s have "y = Inr (n, ?st)" by simp
        with Accept out i have "?Q lib mpzE mpzCompare nNumBits nNumTests flTestDiff i st y 0"
          by simp
        then show ?thesis ..
      next
        case Retry
        with step a s have "loop lib mpzE mpzCompare nNumBits nNumTests flTestDiff i ?st = Some y"
          by simp
        from IH[OF this] i obtain k
          where k: "?Q lib mpzE mpzCompare nNumBits nNumTests flTestDiff i ?st y k" by blast
        have "?Q lib mpzE mpzCompare nNumBits nNumTests flTestDiff i st y (Suc k)"
          using k Retry unfolding tr after_draws_shift
          by (cases y) (simp_all split: prod.splits)
        then show ?thesis ..
      next
        case Count
        show ?thesis
        proof (cases "5 * nNumBits \<le> i + 1")
          case True
          with step a Count have "y = Inl RetryExhausted" by simp
          moreover from True i have "i + 1 = 5 * nNumBits" by simp
          ultimately have "?Q lib mpzE mpzCompare nNumBits nNumTests flTestDiff i st y (Suc 0)"
            using Count unfolding tr by simp
          then show ?thesis ..
        next
          case False
          with step a s Count
          have "loop lib mpzE mpzCompare nNumBits nNumTests flTestDiff (i + 1) ?st = Some y"
            by simp
          from IH[OF this] False obtain k
            where k: "?Q lib mpzE mpzCompare nNumBits nNumTests flTestDiff (i + 1) ?st y k" by auto
          have "?Q lib mpzE mpzCompare nNumBits nNumTests flTestDiff i st y (Suc k)"
            using k Count unfolding tr after_draws_shift
            by (cases y) (simp_all split: prod.splits)
          then show ?thesis ..
        qed
      qed
    qed
  qed
  then show ?thesis .
qed

section \<open>Toy runs\<close>

lemma mem_toy_world [simp]: "mem (toy_world m st) = m"
  and rndState_toy_world [simp]: "rndState (toy_world m st) = st"
  and stderr_toy_world [simp]: "stderr (toy_world m st) = []"
  by (simp_all add: toy_world_def)

lemma toy_mem_simps [simp]:
  "toy_mem p q e 0 = p" "toy_mem p q e (Suc 0) = q" "toy_mem p q e 2 = e"
  by (simp_all add: toy_mem_def)

lemma toy_first_attempt:
  "fnCreate_attempt (toy_gmp [7, 13]) 3 0 5 50 0 0 = (Accept 23, 1)"
  by code_simp

lemma toy_second_attempt:
  "fnCreate_attempt (toy_gmp [7, 13]) 3 23 5 50 1 1 = (Accept 29, 2)"
  by code_simp

lemma toy_first_call:
  "fnCreate_pseudo_prime (toy_gmp [7, 13]) 0 2 1 5 50 0 (toy_world (toy_mem 0 0 3) 0)
     = Some (Inr (toy_world (toy_mem 23 0 3) 1))"
proof -
  have "fnCreate_loop (toy_gmp [7, 13]) 3 0 5 50 0 0 0 = Some (Inr (23, 1))"
    by (subst fnCreate_loop.simps, subst toy_first_attempt) simp
  then show ?thesis
    by (simp add: fnCreate_pseudo_prime_def toy_world_def toy_mem_def mpz_set_def fun_upd_twist)
qed

lemma toy_second_call:
  "fnCreate_pseudo_prime (toy_gmp [7, 13]) 1 2 0 5 50 1 (toy_world (toy_mem 23 0 3) 1)
     = Some (Inr (toy_world (toy_mem 23 29 3) 2))"
proof -
  have "fnCreate_loop (toy_gmp [7, 13]) 3 23 5 50 1 0 1 = Some (Inr (29, 2))"
    by (subst fnCreate_loop.simps, subst toy_second_attempt) simp
  then show ?thesis
    by (simp add: fnCreate_pseudo_prime_def toy_world_def toy_mem_def mpz_set_def fun_upd_twist)
qed


lemma toy_invert_8: "mpz_invert 3 8 = Some 3"
  by code_simp




lemma toy_gcd_4: "gcd (2::int) 4 \<noteq> 1"
  by code_simp


lemma toy_derive_small:
  "fnCompute_exponent_d 0 2 1 4 5 (toy_world (toy_mem 3 5 3) 0)
     = Inr ((toy_world ((toy_mem 3 5 3)(4 := 3)) 0)
              \<lparr>stderr := [''   ### WARNING: Exponent too small'']\<rparr>)"
  by (simp add: fnCompute_exponent_d_eq toy_invert_8 toy_world_def mpz_set_def)










lemma count_list_replicate_other: "x \<noteq> y \<Longrightarrow> count_list (replicate n x) y = 0"
  by (induction n) simp_all

lemma toy_attempt_retried:
  "fnCreate_attempt (toy_gmp []) 5 0 3 50 0 st = (Retry, Suc st)"
  by (simp add: fnCreate_attempt_def mpz_urandomb_def toy_gmp_def Let_def)

lemma toy_trace_all_retried:
  "attempt_trace (toy_gmp []) 5 0 3 50 0 k st = replicate k Retry"
  by (induction k arbitrary: st) (simp_all add: attempt_trace.simps(2) toy_attempt_retried)

lemma toy_never_ends:
  "fnCreate_pseudo_prime (toy_gmp []) 0 2 1 3 50 0 (toy_world (toy_mem 0 0 5) 0) = None"
proof -
  have "fnCreate_loop (toy_gmp []) 5 0 3 50 0 0 0 = None"
  proof (rule ccontr)
    assume "fnCreate_loop (toy_gmp []) 5 0 3 50 0 0 0 \<noteq> None"
    then obtain y where "fnCreate_loop (toy_gmp []) 5 0 3 50 0 0 0 = Some y" by blast
    from fnCreate_loop_Some[OF this] show False
      by (cases y)
        (auto simp: toy_trace_all_retried toy_attempt_retried count_list_replicate_other)
  qed
  then show ?thesis
    by (simp add: fnCreate_pseudo_prime_def)
qed

lemma toy_draws:
  "draw (toy_gmp [4, 70001]) 256 0 0 = 4"
  "draw (toy_gmp [4, 70001]) 256 (Suc 0) 0 = 70001"
  "after_draws (toy_gmp [4, 70001]) 256 (Suc (Suc 0)) 0 = 2"
  by (simp_all add: draw_def mpz_urandomb_def toy_gmp_def after_draws.simps)

lemma toy_exponent_ok: "\<not> exponent_ok 4" "exponent_ok 70001"
  by (simp_all add: exponent_ok_def)


section \<open>Accepted candidates\<close>

text \<open>
  Claim C1.  Every candidate that \<^verbatim>\<open>fnCreate_pseudo_prime\<close> accepts for a target bit
  length \<open>b \<ge> 2\<close> satisfies \<open>2^(b-1) \<le> n < 2^b\<close> and is odd: adding \<open>2^(b-1)\<close> to a
  draw of \<open>b - 1\<close> bits and then 1 to an even sum never reaches \<open>b + 1\<close> bits.
  The accepted candidate is what the call leaves under its output handle.
\<close>

theorem fnCreate_pseudo_prime_bit_length:
  assumes "2 \<le> nNumBits"
    and "fnCreate_pseudo_prime lib mpzPrime mpzE mpzCompare nNumBits nNumTests flTestDiff w = Some (Inr w')"
  shows "2 ^ nat (nNumBits - 1) \<le> mem w' mpzPrime \<and> mem w' mpzPrime < 2 ^ nat nNumBits
         \<and> odd (mem w' mpzPrime)"
proof -
  from assms(2) obtain n st st' where
    a: "fnCreate_attempt lib (mem w mpzE) (mem w mpzCompare) nNumBits nNumTests flTestDiff st = (Accept n, st')"
    and w': "w' = mpz_set mpzPrime n (w\<lparr>rndState := st'\<rparr>)"
    by (rule fnCreate_pseudo_prime_Inr)
  from w' have "mem w' mpzPrime = n" by simp
  with attempt_Accept_range[OF a] assms(1) show ?thesis by simp
qed

theorem fnCreate_pseudo_prime_bit_length_witness:
  "(2::int) \<le> 5
   \<and> fnCreate_pseudo_prime (toy_gmp [7, 13]) 0 2 1 5 50 0 (toy_world (toy_mem 0 0 3) 0)
       = Some (Inr (toy_world (toy_mem 23 0 3) 1))
   \<and> 2 ^ nat (5 - 1) \<le> mem (toy_world (toy_mem 23 0 3) 1) 0
   \<and> mem (toy_world (toy_mem 23 0 3) 1) 0 < 2 ^ nat 5
   \<and> odd (mem (toy_world (toy_mem 23 0 3) 1) 0)"
proof -
  have b: "(2::int) \<le> 5" by simp
  from fnCreate_pseudo_prime_bit_length[OF b toy_first_call] b toy_first_call
  show ?thesis by (intro conjI) simp_all
qed

text \<open>
  Claim C4.  Every candidate \<open>n\<close> that \<^verbatim>\<open>fnCreate_pseudo_prime\<close> accepts for the
  exponent \<open>e\<close> and \<open>numTests\<close> rounds has \<open>gcd (n - 1) e = 1\<close>, and the primality test
  with \<open>numTests\<close> rounds answered at least 1 (probably prime or prime) on it; a
  candidate failing either is never returned.
\<close>

theorem fnCreate_pseudo_prime_coprime_probab_prime:
  assumes "fnCreate_pseudo_prime lib mpzPrime mpzE mpzCompare nNumBits nNumTests flTestDiff w = Some (Inr w')"
  shows "gcd (mem w' mpzPrime - 1) (mem w mpzE) = 1
         \<and> 1 \<le> probab_prime_p lib (mem w' mpzPrime) nNumTests"
proof -
  from assms obtain n st st' where
    a: "fnCreate_attempt lib (mem w mpzE) (mem w mpzCompare) nNumBits nNumTests flTestDiff st = (Accept n, st')"
    and w': "w' = mpz_set mpzPrime n (w\<lparr>rndState := st'\<rparr>)"
    by (rule fnCreate_pseudo_prime_Inr)
  from w' have "mem w' mpzPrime = n" by simp
  with attempt_Accept_filters(1,2)[OF a] show ?thesis by simp
qed

theorem fnCreate_pseudo_prime_coprime_probab_prime_witness:
  "fnCreate_pseudo_prime (toy_gmp [7, 13]) 0 2 1 5 50 0 (toy_world (toy_mem 0 0 3) 0)
       = Some (Inr (toy_world (toy_mem 23 0 3) 1))
   \<and> gcd (mem (toy_world (toy_mem 23 0 3) 1) 0 - 1) (mem (toy_world (toy_mem 0 0 3) 0) 2) = 1
   \<and> 1 \<le> probab_prime_p (toy_gmp [7, 13]) (mem (toy_world (toy_mem 23 0 3) 1) 0) 50"
  using fnCreate_pseudo_prime_coprime_probab_prime[OF toy_first_call] toy_first_call
  by (intro conjI) simp_all

text \<open>
  Claim C3.  For the pair \<open>(p, q)\<close> of bit length \<open>b\<close> that the two calls of one run
  accept (the second call with \<open>p\<close> as companion and the difference test on):
  \<open>p \<noteq> q\<close>, \<open>\<bar>p - q\<bar> > 2^max(0, b - 100)\<close> and \<open>p * q \<ge> 2^(2b - 1)\<close>, the last because
  each accepted candidate passed \<open>n\<^sup>2 \<ge> 2^(2b - 1)\<close>.  The two primes live under
  different handles, as \<^verbatim>\<open>mpzP1\<close> and \<^verbatim>\<open>mpzP2\<close> do in \<^verbatim>\<open>main\<close>.
\<close>

theorem fnCreate_pseudo_prime_pair:
  assumes "1 \<le> nNumBits" and "mpzP1 \<noteq> mpzP2"
    and c1: "fnCreate_pseudo_prime lib mpzP1 mpzE mpzP2 nNumBits nNumTests 0 w = Some (Inr w1)"
    and c2: "fnCreate_pseudo_prime lib mpzP2 mpzE mpzP1 nNumBits nNumTests 1 w1 = Some (Inr w2)"
  shows "mem w2 mpzP1 \<noteq> mem w2 mpzP2
         \<and> 2 ^ nat (max 0 (nNumBits - 100)) < \<bar>mem w2 mpzP1 - mem w2 mpzP2\<bar>
         \<and> 2 ^ nat (2 * nNumBits - 1) \<le> mem w2 mpzP1 * mem w2 mpzP2"
proof -
  from c1 obtain p st st' where
    a1: "fnCreate_attempt lib (mem w mpzE) (mem w mpzP2) nNumBits nNumTests 0 st = (Accept p, st')"
    and w1: "w1 = mpz_set mpzP1 p (w\<lparr>rndState := st'\<rparr>)"
    by (rule fnCreate_pseudo_prime_Inr)
  from c2 obtain q st2 st2' where
    a2: "fnCreate_attempt lib (mem w1 mpzE) (mem w1 mpzP1) nNumBits nNumTests 1 st2 = (Accept q, st2')"
    and w2: "w2 = mpz_set mpzP2 q (w1\<lparr>rndState := st2'\<rparr>)"
    by (rule fnCreate_pseudo_prime_Inr)
  from w1 have p1: "mem w1 mpzP1 = p" by simp
  from w2 w1 assms(2) have p: "mem w2 mpzP1 = p" and q: "mem w2 mpzP2 = q" by simp_all
  have j: "nat (if nNumBits \<le> 100 then 0 else nNumBits - 100) = nat (max 0 (nNumBits - 100))"
    by simp
  from attempt_Accept_filters(4)[OF a2 refl]
  have "2 ^ nat (max 0 (nNumBits - 100)) < \<bar>q - p\<bar>"
    unfolding p1 j .
  then have d: "2 ^ nat (max 0 (nNumBits - 100)) < \<bar>p - q\<bar>"
    by (simp only: abs_minus_commute)
  have "(0::int) < 2 ^ nat (max 0 (nNumBits - 100))" by simp
  from this d have "0 < \<bar>p - q\<bar>" by (rule less_trans)
  then have ne: "p \<noteq> q" by simp
  note sp = attempt_Accept_filters(3)[OF a1] and sq = attempt_Accept_filters(3)[OF a2]
  have "(0::int) < 2 ^ nat (nNumBits - 1)" by simp
  with attempt_Accept_range(1)[OF a1] attempt_Accept_range(1)[OF a2]
  have pos: "0 < p" "0 < q" by linarith+
  have "2 ^ nat (2 * nNumBits - 1) \<le> p * q"
    using pos sp sq by (rule square_bound_product) simp
  with ne d show ?thesis unfolding p q by (intro conjI)
qed

theorem fnCreate_pseudo_prime_pair_witness:
  "(1::int) \<le> 5 \<and> (0::nat) \<noteq> 1
   \<and> fnCreate_pseudo_prime (toy_gmp [7, 13]) 0 2 1 5 50 0 (toy_world (toy_mem 0 0 3) 0)
       = Some (Inr (toy_world (toy_mem 23 0 3) 1))
   \<and> fnCreate_pseudo_prime (toy_gmp [7, 13]) 1 2 0 5 50 1 (toy_world (toy_mem 23 0 3) 1)
       = Some (Inr (toy_world (toy_mem 23 29 3) 2))
   \<and> mem (toy_world (toy_mem 23 29 3) 2) 0 \<noteq> mem (toy_world (toy_mem 23 29 3) 2) 1
   \<and> 2 ^ nat (max 0 (5 - 100))
       < \<bar>mem (toy_world (toy_mem 23 29 3) 2) 0 - mem (toy_world (toy_mem 23 29 3) 2) 1\<bar>
   \<and> 2 ^ nat (2 * 5 - 1)
       \<le> mem (toy_world (toy_mem 23 29 3) 2) 0 * mem (toy_world (toy_mem 23 29 3) 2) 1"
proof -
  have b: "(1::int) \<le> 5" and h: "(0::nat) \<noteq> 1" by simp_all
  from fnCreate_pseudo_prime_pair[OF b h toy_first_call toy_second_call] b h
    toy_first_call toy_second_call
  show ?thesis by (intro conjI) simp_all
qed

section \<open>The retry ceiling\<close>




section \<open>The public exponent\<close>

text \<open>
  Claim C7.  When the exponent is drawn (the answer is neither \<^verbatim>\<open>Y\<close> nor \<^verbatim>\<open>y\<close>),
  \<^verbatim>\<open>fnGet_exponent_e\<close> returns the first 256-bit draw that is odd and within the
  bounds: it returns exactly when the generator has such a draw, the draws before it
  all fail the test, and the generator is left just behind it.  The value returned
  satisfies \<open>65536 \<le> e \<le> 2^256\<close> and is odd.
\<close>

theorem fnGet_exponent_e_random:
  assumes "chIn \<noteq> CHR ''Y''" and "chIn \<noteq> CHR ''y''"
  shows "(fnGet_exponent_e lib chIn nValE mpzE w = Some w'
            \<longleftrightarrow> (\<exists>k. (\<forall>j<k. \<not> exponent_ok (draw lib 256 j (rndState w)))
                   \<and> exponent_ok (draw lib 256 k (rndState w))
                   \<and> w' = mpz_set mpzE (draw lib 256 k (rndState w))
                            (w\<lparr>rndState := after_draws lib 256 (Suc k) (rndState w)\<rparr>)))
         \<and> (fnGet_exponent_e lib chIn nValE mpzE w = Some w'
            \<longrightarrow> 65536 \<le> mem w' mpzE \<and> mem w' mpzE \<le> 2 ^ 256 \<and> odd (mem w' mpzE))"
proof -
  let ?R = "\<lambda>k. (\<forall>j<k. \<not> exponent_ok (draw lib 256 j (rndState w)))
                   \<and> exponent_ok (draw lib 256 k (rndState w))
                   \<and> w' = mpz_set mpzE (draw lib 256 k (rndState w))
                            (w\<lparr>rndState := after_draws lib 256 (Suc k) (rndState w)\<rparr>)"
  have eq: "fnGet_exponent_e lib chIn nValE mpzE w =
      (case fnGet_exponent_e_loop lib (rndState w) of
              None \<Rightarrow> None
            | Some (temp, st') \<Rightarrow> Some (mpz_set mpzE temp (w\<lparr>rndState := st'\<rparr>)))"
    using assms by (simp add: fnGet_exponent_e_def)
  have fwd: "\<exists>k. ?R k" if r: "fnGet_exponent_e lib chIn nValE mpzE w = Some w'"
  proof -
    from r obtain temp st' where l: "fnGet_exponent_e_loop lib (rndState w) = Some (temp, st')"
      and w': "w' = mpz_set mpzE temp (w\<lparr>rndState := st'\<rparr>)"
      unfolding eq by (auto split: option.splits)
    from fnGet_exponent_e_loop_Some[OF l] w' show ?thesis by auto
  qed
  have bwd: "fnGet_exponent_e lib chIn nValE mpzE w = Some w'" if "\<exists>k. ?R k"
  proof -
    from that obtain k where k: "?R k" ..
    then have "fnGet_exponent_e_loop lib (rndState w)
        = Some (draw lib 256 k (rndState w), after_draws lib 256 (Suc k) (rndState w))"
      by (intro fnGet_exponent_e_loop_first) simp_all
    with k show ?thesis unfolding eq by simp
  qed
  have bounds: "65536 \<le> mem w' mpzE \<and> mem w' mpzE \<le> 2 ^ 256 \<and> odd (mem w' mpzE)"
    if r: "fnGet_exponent_e lib chIn nValE mpzE w = Some w'"
  proof -
    from fwd[OF r] obtain k where k: "?R k" ..
    then have "mem w' mpzE = draw lib 256 k (rndState w)" by simp
    with k exponent_ok_bounds show ?thesis by metis
  qed
  from fwd bwd bounds show ?thesis by blast
qed

theorem fnGet_exponent_e_random_witness:
  "CHR ''N'' \<noteq> CHR ''Y'' \<and> CHR ''N'' \<noteq> CHR ''y''
   \<and> draw (toy_gmp [4, 70001]) 256 0 0 = 4 \<and> draw (toy_gmp [4, 70001]) 256 (Suc 0) 0 = 70001
   \<and> fnGet_exponent_e (toy_gmp [4, 70001]) CHR ''N'' 0 2 (toy_world (toy_mem 0 0 1) 0)
       = Some (toy_world (toy_mem 0 0 70001) 2)
   \<and> 65536 \<le> mem (toy_world (toy_mem 0 0 70001) 2) 2
   \<and> mem (toy_world (toy_mem 0 0 70001) 2) 2 \<le> 2 ^ 256
   \<and> odd (mem (toy_world (toy_mem 0 0 70001) 2) 2)"
proof -
  have h1: "CHR ''N'' \<noteq> CHR ''Y''" and h2: "CHR ''N'' \<noteq> CHR ''y''" by simp_all
  let ?w = "toy_world (toy_mem 0 0 1) 0" and ?w' = "toy_world (toy_mem 0 0 70001) 2"
  have w': "?w' = mpz_set 2 70001 (?w\<lparr>rndState := 2\<rparr>)"
    by (simp add: toy_world_def toy_mem_def mpz_set_def)
  have "\<exists>k. (\<forall>j<k. \<not> exponent_ok (draw (toy_gmp [4, 70001]) 256 j (rndState ?w)))
      \<and> exponent_ok (draw (toy_gmp [4, 70001]) 256 k (rndState ?w))
      \<and> ?w' = mpz_set 2 (draw (toy_gmp [4, 70001]) 256 k (rndState ?w))
                 (?w\<lparr>rndState := after_draws (toy_gmp [4, 70001]) 256 (Suc k) (rndState ?w)\<rparr>)"
    by (rule exI[of _ "Suc 0"]) (simp add: toy_draws toy_exponent_ok w' del: after_draws.simps)
  with fnGet_exponent_e_random[OF h1 h2, of "toy_gmp [4, 70001]" 0 2 ?w ?w']
  have r: "fnGet_exponent_e (toy_gmp [4, 70001]) CHR ''N'' 0 2 ?w = Some ?w'"
    and "65536 \<le> mem ?w' 2 \<and> mem ?w' 2 \<le> 2 ^ 256 \<and> odd (mem ?w' 2)"
    by blast+
  with h1 h2 toy_draws(1,2) show ?thesis by (intro conjI) simp_all
qed

section \<open>The private exponent\<close>








section \<open>The whole run\<close>





end

